theory Spec2Isabelle
  imports Main "HOL-Library.Multiset"
begin

section \<open>Data model of server.js\<close>

text \<open>
  The embedding follows \<^verbatim>\<open>src/server.js\<close>. JSON payloads are given the shape the
  code reads them with: a field the code guards with \<^verbatim>\<open>||\<close> or \<^verbatim>\<open>&&\<close> is an
  \<open>option\<close>, every other field has its documented type. Conversation ids are strings that
  are not property names of \<^verbatim>\<open>Object.prototype\<close>, so the plain objects \<^verbatim>\<open>chatIndex\<close>
  and \<^verbatim>\<open>webhookSeen\<close> are maps. Wall-clock values (\<^verbatim>\<open>Date.now()\<close>, \<^verbatim>\<open>cached_at\<close>,
  \<^verbatim>\<open>lastSync\<close>, \<^verbatim>\<open>lastDuration\<close>), the \<^verbatim>\<open>sleep\<close> delays, the log file and the token
  cache are left out. Writes to disk succeed, and the copies of \<^verbatim>\<open>chatIndex\<close>,
  \<^verbatim>\<open>webhookSeen\<close> and \<^verbatim>\<open>syncState\<close> on disk are not kept apart from the values in
  memory. Account ids are compared as strings. An \<^verbatim>\<open>async\<close> function runs to completion
  before the next one starts: interleaving at \<^verbatim>\<open>await\<close> points is not represented.
\<close>

record config =
  AVITO_USER_ID :: string
  WEBHOOK_API_KEY :: string

record message =
  msg_id :: string
  created :: "nat option"
  author_id :: string
  msg_type :: "string option"
  content_text :: "string option"

record last_message =
  lm_id :: "string option"
  lm_created :: "nat option"
  lm_author_id :: "string option"
  lm_text :: "string option"

record chat_user =
  user_id :: string
  user_name :: string

record context_value =
  cv_title :: string
  cv_price_string :: string
  cv_url :: string

record chat =
  chat_id :: string
  chat_last_message :: "last_message option"
  chat_users :: "chat_user list option"
  chat_context_value :: "context_value option"

text \<open>An entry of \<^verbatim>\<open>chatIndex\<close>.\<close>

record summary =
  updated :: nat
  lastMsgId :: string
  lastDir :: string
  lastText :: string
  users :: "string list"
  item :: string
  price :: string
  itemUrl :: string

text \<open>An entry of \<^verbatim>\<open>webhookSeen\<close> (its \<^verbatim>\<open>at\<close> timestamp is left out).\<close>

record seen =
  seen_lastMsgId :: string

record sync_state =
  chatsChecked :: nat
  chatsUpdated :: nat
  chatsMissed :: nat
  isRunning :: bool
  errors :: nat

text \<open>
  The files under \<^verbatim>\<open>CHATS_DIR\<close>: the JSON blob \<^verbatim>\<open>{chat_id, messages, cached_at}\<close> and the
  transcript, kept as the chat id and the sorted messages its lines are printed from (the
  rendering of one line, which formats a local date, is not modelled).
\<close>

record cached =
  cached_chat_id :: string
  cached_messages :: "message list"

datatype cache_file = Json_file cached | Txt_file string "message list"

text \<open>
  The value \<^verbatim>\<open>avitoApi\<close> resolves to: \<open>None\<close> is its \<^verbatim>\<open>null\<close> (any network, token or
  parse failure, all caught inside it), otherwise the parsed body with the two fields the
  callers read.
\<close>

record api_data =
  chats :: "chat list option"
  messages :: "message list option"

datatype request = List_chats nat | Get_messages string

type_synonym response = "api_data option"

text \<open>
  The remote platform answers a request depending on when it is asked: the first argument
  is the number of events the server has produced so far.
\<close>

type_synonym remote = "nat \<Rightarrow> request \<Rightarrow> response"

datatype json_body =
  Body_ok
  | Body_triggered
  | Body_error string
  | Body_not_cached string
  | Body_cached cached

text \<open>What the server does to the outside world, in order.\<close>

datatype event = Api_call request response | Http_reply nat json_body

record server =
  chatIndex :: "string \<rightharpoonup> summary"
  webhookSeen :: "string \<rightharpoonup> seen"
  syncState :: sync_state
  files :: "string \<rightharpoonup> cache_file"
  events :: "event list"

section \<open>Remote API client\<close>

definition avitoApi :: "remote \<Rightarrow> request \<Rightarrow> server \<Rightarrow> response \<times> server" where
  "avitoApi remote req s =
     (let data = remote (length (events s)) req
      in (data, s\<lparr>events := events s @ [Api_call req data]\<rparr>))"

section \<open>Chat cache\<close>

fun safeName :: "string \<Rightarrow> string" where
  "safeName [] = []"
| "safeName (c # cs) = (if c = CHR ''/'' then ''%2F'' @ safeName cs else c # safeName cs)"

definition created_or_0 :: "message \<Rightarrow> nat" where
  "created_or_0 m = (case created m of None \<Rightarrow> 0 | Some t \<Rightarrow> t)"

definition saveChatMessages :: "string \<Rightarrow> message list option \<Rightarrow> server \<Rightarrow> server" where
  "saveChatMessages chatId msgs_opt s =
     (case msgs_opt of
        None \<Rightarrow> s
      | Some ms \<Rightarrow>
          if ms = [] then s
          else
            (let safe = safeName chatId;
                 s1 = s\<lparr>files := (files s)(safe @ ''.json'' \<mapsto>
                        Json_file \<lparr>cached_chat_id = chatId, cached_messages = ms\<rparr>)\<rparr>;
                 msgs = sort_key created_or_0 ms
             in s1\<lparr>files := (files s1)(''chat_'' @ safe @ ''.txt'' \<mapsto> Txt_file chatId msgs)\<rparr>))"

definition updateChatCache :: "remote \<Rightarrow> string \<Rightarrow> server \<Rightarrow> bool \<times> server" where
  "updateChatCache remote chatId s =
     (let (data, s1) = avitoApi remote (Get_messages chatId) s
      in case data of
           None \<Rightarrow> (False, s1)
         | Some d \<Rightarrow>
             (case messages d of
                None \<Rightarrow> (False, s1)
              | Some ms \<Rightarrow> (True, saveChatMessages chatId (Some ms) s1)))"

section \<open>Periodic sync\<close>

text \<open>The offsets of \<^verbatim>\<open>for (let offset = 0; offset <= 1000; offset += 100)\<close>.\<close>

definition page_offsets :: "nat list" where
  "page_offsets = map (\<lambda>k. 100 * k) [0..<11]"

text \<open>The pagination loop, with its three \<^verbatim>\<open>break\<close>s.\<close>

fun fetch_pages :: "remote \<Rightarrow> nat list \<Rightarrow> server \<Rightarrow> chat list \<times> server" where
  "fetch_pages remote [] s = ([], s)"
| "fetch_pages remote (offset # rest) s =
     (let (data, s1) = avitoApi remote (List_chats offset) s
      in case data of
           None \<Rightarrow> ([], s1)
         | Some d \<Rightarrow>
             (case chats d of
                None \<Rightarrow> ([], s1)
              | Some cs \<Rightarrow>
                  if cs = [] then ([], s1)
                  else if length cs < 100 then (cs, s1)
                  else (let (more, s2) = fetch_pages remote rest s1 in (cs @ more, s2))))"

text \<open>The object literal assigned to \<^verbatim>\<open>newIndex[chat.id]\<close>.\<close>

definition listed_lastMsgId :: "chat \<Rightarrow> string" where
  "listed_lastMsgId c =
     (case chat_last_message c of
        None \<Rightarrow> ''''
      | Some lm \<Rightarrow> (case lm_id lm of None \<Rightarrow> '''' | Some i \<Rightarrow> i))"

definition summary_of :: "config \<Rightarrow> chat \<Rightarrow> summary" where
  "summary_of cfg c =
     (let lastMsg = (case chat_last_message c of
                       None \<Rightarrow> \<lparr>lm_id = None, lm_created = None, lm_author_id = None, lm_text = None\<rparr>
                     | Some lm \<Rightarrow> lm)
      in \<lparr>updated = (case lm_created lastMsg of None \<Rightarrow> 0 | Some t \<Rightarrow> t),
          lastMsgId = (case lm_id lastMsg of None \<Rightarrow> '''' | Some i \<Rightarrow> i),
          lastDir = (if lm_author_id lastMsg = Some (AVITO_USER_ID cfg) then ''out'' else ''in''),
          lastText = take 100 (case lm_text lastMsg of None \<Rightarrow> '''' | Some t \<Rightarrow> t),
          users = filter (\<lambda>n. n \<noteq> '''')
                    (map user_name
                       (filter (\<lambda>u. user_id u \<noteq> AVITO_USER_ID cfg)
                          (case chat_users c of None \<Rightarrow> [] | Some us \<Rightarrow> us))),
          item = (case chat_context_value c of None \<Rightarrow> '''' | Some v \<Rightarrow> cv_title v),
          price = (case chat_context_value c of None \<Rightarrow> '''' | Some v \<Rightarrow> cv_price_string v),
          itemUrl = (case chat_context_value c of None \<Rightarrow> '''' | Some v \<Rightarrow> cv_url v)\<rparr>)"

fun build_index :: "config \<Rightarrow> chat list \<Rightarrow> (string \<rightharpoonup> summary) \<Rightarrow> (string \<rightharpoonup> summary)" where
  "build_index cfg [] newIndex = newIndex"
| "build_index cfg (c # rest) newIndex =
     build_index cfg rest (newIndex(chat_id c \<mapsto> summary_of cfg c))"

text \<open>
  The loop that decides which chats need an update. The accumulator is
  \<^verbatim>\<open>(checked, updated, errors)\<close>; \<^verbatim>\<open>chatIndex\<close> is read from the state at every round, as
  the source reads the global.
\<close>

fun refresh_loop :: "remote \<Rightarrow> chat list \<Rightarrow> nat \<times> nat \<times> nat \<Rightarrow> server
                     \<Rightarrow> (nat \<times> nat \<times> nat) \<times> server" where
  "refresh_loop remote [] acc s = (acc, s)"
| "refresh_loop remote (c # rest) (checked, upd, errs) s =
     (let ident = chat_id c;
          lastId = listed_lastMsgId c;
          prev = chatIndex s ident
      in if (case prev of None \<Rightarrow> True | Some p \<Rightarrow> lastMsgId p \<noteq> lastId)
         then (let (ok, s1) = updateChatCache remote ident s
               in if ok then refresh_loop remote rest (checked + 1, upd + 1, errs) s1
                  else refresh_loop remote rest (checked + 1, upd, errs + 1) s1)
         else refresh_loop remote rest (checked + 1, upd, errs) s)"

text \<open>
  \<^verbatim>\<open>periodicSync\<close>. With payloads of the shape above no statement of its \<^verbatim>\<open>try\<close> block
  throws, so the \<^verbatim>\<open>catch\<close> handler has no counterpart here. The function returns nothing
  (\<^verbatim>\<open>undefined\<close>) on every path; its result is the new state.
\<close>

definition periodicSync :: "config \<Rightarrow> remote \<Rightarrow> server \<Rightarrow> server" where
  "periodicSync cfg remote s =
     (if isRunning (syncState s) then s
      else
        (let s0 = s\<lparr>syncState := (syncState s)\<lparr>isRunning := True\<rparr>\<rparr>;
             (allChats, s1) = fetch_pages remote page_offsets s0;
             newIndex = build_index cfg allChats Map.empty;
             ((checked, upd, errs), s2) = refresh_loop remote allChats (0, 0, 0) s1;
             s3 = s2\<lparr>chatIndex := newIndex\<rparr>
         in s3\<lparr>syncState := \<lparr>chatsChecked = checked, chatsUpdated = upd, chatsMissed = 0,
                               isRunning = False, errors = errs\<rparr>\<rparr>))"

section \<open>HTTP handlers\<close>

definition checkAuth :: "config \<Rightarrow> string option \<Rightarrow> bool" where
  "checkAuth cfg header =
     (if WEBHOOK_API_KEY cfg = '''' then True
      else (case header of None \<Rightarrow> '''' | Some h \<Rightarrow> h) = ''Bearer '' @ WEBHOOK_API_KEY cfg)"

definition sendJson :: "nat \<Rightarrow> json_body \<Rightarrow> server \<Rightarrow> server" where
  "sendJson status body s = s\<lparr>events := events s @ [Http_reply status body]\<rparr>"

text \<open>
  The request body of \<^verbatim>\<open>POST /webhook\<close>: \<open>Malformed\<close> when \<^verbatim>\<open>JSON.parse\<close> (or the read of
  \<^verbatim>\<open>payload.payload\<close> on a non-object) throws, otherwise \<^verbatim>\<open>payload.payload.value\<close> if it
  is there.
\<close>

record webhook_value =
  wv_chat_id :: "string option"
  wv_id :: "string option"

datatype webhook_body = Malformed | Parsed "webhook_value option"

text \<open>
  The refresh the handler starts without awaiting it is run right after the marker is set.
\<close>

definition webhook :: "remote \<Rightarrow> webhook_body \<Rightarrow> server \<Rightarrow> server" where
  "webhook remote body s =
     (let s1 = sendJson 200 Body_ok s
      in case body of
           Malformed \<Rightarrow> s1
         | Parsed pv \<Rightarrow>
             (let v = (case pv of None \<Rightarrow> \<lparr>wv_chat_id = None, wv_id = None\<rparr> | Some w \<Rightarrow> w);
                  msgId = (case wv_id v of None \<Rightarrow> '''' | Some i \<Rightarrow> i)
              in case wv_chat_id v of
                   None \<Rightarrow> s1
                 | Some chatId \<Rightarrow>
                     if chatId = '''' then s1
                     else snd (updateChatCache remote chatId
                                 (s1\<lparr>webhookSeen := (webhookSeen s1)(chatId \<mapsto>
                                        \<lparr>seen_lastMsgId = msgId\<rparr>)\<rparr>))))"

text \<open>\<^verbatim>\<open>POST /sync\<close>: the sweep scheduled with \<^verbatim>\<open>setImmediate\<close> runs after the reply.\<close>

definition post_sync :: "config \<Rightarrow> remote \<Rightarrow> string option \<Rightarrow> server \<Rightarrow> server" where
  "post_sync cfg remote header s =
     (if \<not> checkAuth cfg header then sendJson 401 (Body_error ''Unauthorized'') s
      else periodicSync cfg remote (sendJson 200 Body_triggered s))"

text \<open>
  \<^verbatim>\<open>GET /api/chats/{chatId}/messages\<close>, from the decoded chat id on. A file that does not
  parse as the JSON blob gives the 500 branch.
\<close>

definition get_chat_messages :: "config \<Rightarrow> string option \<Rightarrow> string \<Rightarrow> server \<Rightarrow> server" where
  "get_chat_messages cfg header chatId s =
     (if \<not> checkAuth cfg header then sendJson 401 (Body_error ''Unauthorized'') s
      else
        (let safe = safeName chatId
         in case files s (safe @ ''.json'') of
              None \<Rightarrow> sendJson 404 (Body_not_cached chatId) s
            | Some (Json_file data) \<Rightarrow> sendJson 200 (Body_cached data) s
            | Some (Txt_file a b) \<Rightarrow> sendJson 500 (Body_error ''parse error'') s))"

section \<open>Observations on the event trace\<close>

text \<open>The chat ids of the refresh requests in a trace, in order.\<close>

fun refresh_ids :: "event list \<Rightarrow> string list" where
  "refresh_ids [] = []"
| "refresh_ids (Api_call (Get_messages i) r # es) = i # refresh_ids es"
| "refresh_ids (Api_call (List_chats n) r # es) = refresh_ids es"
| "refresh_ids (Http_reply n b # es) = refresh_ids es"

text \<open>The offsets of the listing requests in a trace, in order.\<close>

fun listing_offsets :: "event list \<Rightarrow> nat list" where
  "listing_offsets [] = []"
| "listing_offsets (Api_call (List_chats n) r # es) = n # listing_offsets es"
| "listing_offsets (Api_call (Get_messages i) r # es) = listing_offsets es"
| "listing_offsets (Http_reply n b # es) = listing_offsets es"

text \<open>The replies sent in a trace, in order.\<close>

fun replies :: "event list \<Rightarrow> (nat \<times> json_body) list" where
  "replies [] = []"
| "replies (Http_reply n b # es) = (n, b) # replies es"
| "replies (Api_call q r # es) = replies es"

definition messages_of :: "response \<Rightarrow> message list option" where
  "messages_of r = (case r of None \<Rightarrow> None | Some d \<Rightarrow> messages d)"

definition chats_of :: "response \<Rightarrow> chat list option" where
  "chats_of r = (case r of None \<Rightarrow> None | Some d \<Rightarrow> chats d)"

text \<open>
  A refresh exchange whose answer makes \<^const>\<open>updateChatCache\<close> return \<^verbatim>\<open>false\<close>
  (no data, or no \<^verbatim>\<open>messages\<close> field), respectively \<^verbatim>\<open>true\<close>.
\<close>

fun refresh_failed :: "event \<Rightarrow> bool" where
  "refresh_failed (Api_call (Get_messages i) r) = (messages_of r = None)"
| "refresh_failed (Api_call (List_chats n) r) = False"
| "refresh_failed (Http_reply n b) = False"

fun refresh_succeeded :: "event \<Rightarrow> bool" where
  "refresh_succeeded (Api_call (Get_messages i) r) = (messages_of r \<noteq> None)"
| "refresh_succeeded (Api_call (List_chats n) r) = False"
| "refresh_succeeded (Http_reply n b) = False"

text \<open>
  The spec's notion of a dirty conversation: no previous index entry, or an entry whose
  last message id differs from the listed one.
\<close>

definition is_dirty :: "(string \<rightharpoonup> summary) \<Rightarrow> chat \<Rightarrow> bool" where
  "is_dirty idx c =
     (case idx (chat_id c) of None \<Rightarrow> True | Some p \<Rightarrow> lastMsgId p \<noteq> listed_lastMsgId c)"

text \<open>The conversations a sweep started in state \<open>s\<close> gets from its listing phase.\<close>

definition sweep_listing :: "remote \<Rightarrow> server \<Rightarrow> chat list" where
  "sweep_listing remote s = fst (fetch_pages remote page_offsets s)"

text \<open>The events a sweep started in state \<open>s\<close> adds to the trace.\<close>

definition sweep_events :: "config \<Rightarrow> remote \<Rightarrow> server \<Rightarrow> event list" where
  "sweep_events cfg remote s = drop (length (events s)) (events (periodicSync cfg remote s))"

section \<open>Definitions used to state the properties\<close>

text \<open>
  The source has no decoder for \<^const>\<open>safeName\<close>. The inverse substitution, every
  \<^verbatim>\<open>%2F\<close> back to a slash, is what the spec's words call decoding.
\<close>

fun decodeName :: "string \<Rightarrow> string" where
  "decodeName [] = []"
| "decodeName (c # cs) =
     (if c = CHR ''%'' \<and> take 2 cs = ''2F'' then CHR ''/'' # decodeName (drop 2 cs)
      else c # decodeName cs)"

text \<open>Whether an id already contains the escape sequence \<^verbatim>\<open>%2F\<close>.\<close>

fun contains_escape :: "string \<Rightarrow> bool" where
  "contains_escape [] = False"
| "contains_escape (c # cs) = ((c = CHR ''%'' \<and> take 2 cs = ''2F'') \<or> contains_escape cs)"

text \<open>A webhook body that is malformed or carries no conversation id.\<close>

definition lacks_chat_id :: "webhook_body \<Rightarrow> bool" where
  "lacks_chat_id body =
     (case body of
        Malformed \<Rightarrow> True
      | Parsed pv \<Rightarrow>
          (case pv of None \<Rightarrow> True
           | Some v \<Rightarrow> (case wv_chat_id v of None \<Rightarrow> True | Some i \<Rightarrow> i = '''')))"

section \<open>Example states and remotes\<close>

text \<open>The default configuration: no API key, so every request is authorised.\<close>

definition cfg0 :: config where
  "cfg0 = \<lparr>AVITO_USER_ID = ''204620380'', WEBHOOK_API_KEY = ''''\<rparr>"

text \<open>The state at process start with nothing on disk, and the same state during a sweep.\<close>

definition idle :: server where
  "idle = \<lparr>chatIndex = Map.empty, webhookSeen = Map.empty,
           syncState = \<lparr>chatsChecked = 0, chatsUpdated = 0, chatsMissed = 0,
                         isRunning = False, errors = 0\<rparr>,
           files = Map.empty, events = []\<rparr>"

definition busy :: server where
  "busy = idle\<lparr>syncState := (syncState idle)\<lparr>isRunning := True\<rparr>\<rparr>"

definition chat_of :: "string \<Rightarrow> string \<Rightarrow> chat" where
  "chat_of i m = \<lparr>chat_id = i,
                  chat_last_message = Some \<lparr>lm_id = Some m, lm_created = Some 5,
                                             lm_author_id = Some ''7'', lm_text = Some ''hello''\<rparr>,
                  chat_users = Some [\<lparr>user_id = ''7'', user_name = ''Ann''\<rparr>],
                  chat_context_value = None\<rparr>"

definition msg_of :: "string \<Rightarrow> nat \<Rightarrow> message" where
  "msg_of i t = \<lparr>msg_id = i, created = Some t, author_id = ''7'', msg_type = Some ''text'',
                 content_text = Some ''hello''\<rparr>"

definition abc :: "chat list" where
  "abc = [chat_of ''a'' ''m1'', chat_of ''b'' ''m2'', chat_of ''c'' ''m3'']"

text \<open>A remote with three conversations, every refresh succeeding.\<close>

definition three_chats :: remote where
  "three_chats t q =
     (case q of
        List_chats n \<Rightarrow> Some \<lparr>chats = Some abc, messages = None\<rparr>
      | Get_messages i \<Rightarrow> Some \<lparr>chats = None, messages = Some [msg_of ''m3'' 5]\<rparr>)"



text \<open>A remote that cannot be reached.\<close>

definition down :: remote where
  "down t q = None"

text \<open>A full page of one hundred distinct conversations, the last one being \<^verbatim>\<open>x\<close>.\<close>

definition page100 :: "chat list" where
  "page100 =
     map (\<lambda>i. chat_of (replicate (Suc i) (CHR ''a'')) ''m1'') [0..<99] @ [chat_of ''x'' ''m1'']"

text \<open>A remote whose first listing page is full and whose second page cannot be fetched.\<close>

definition full_then_fail :: remote where
  "full_then_fail t q =
     (case q of
        List_chats n \<Rightarrow> if n = 0 then Some \<lparr>chats = Some page100, messages = None\<rparr> else None
      | Get_messages i \<Rightarrow> Some \<lparr>chats = None, messages = Some [msg_of ''m1'' 5]\<rparr>)"

text \<open>
  A remote where a conversation arrived between the two page fetches: the last conversation
  of the first page, \<^verbatim>\<open>x\<close>, has moved to offset 100 and is listed again on the second page.
\<close>

definition shifted :: remote where
  "shifted t q =
     (case q of
        List_chats n \<Rightarrow>
          if n = 0 then Some \<lparr>chats = Some page100, messages = None\<rparr>
          else if n = 100 then Some \<lparr>chats = Some [chat_of ''x'' ''m1''], messages = None\<rparr>
          else None
      | Get_messages i \<Rightarrow> Some \<lparr>chats = None, messages = Some [msg_of ''m1'' 5]\<rparr>)"

text \<open>
  An index that knows \<^verbatim>\<open>a\<close> and \<^verbatim>\<open>b\<close> with their current last message, and a
  conversation \<^verbatim>\<open>z\<close> that the remote no longer lists.
\<close>

definition known_abz :: server where
  "known_abz = idle\<lparr>chatIndex := [''a'' \<mapsto> summary_of cfg0 (chat_of ''a'' ''m1''),
                                   ''b'' \<mapsto> summary_of cfg0 (chat_of ''b'' ''m2''),
                                   ''z'' \<mapsto> summary_of cfg0 (chat_of ''z'' ''m0'')]\<rparr>"

text \<open>The same index with every field but the last message id out of date.\<close>

definition stale_abz :: "string \<rightharpoonup> summary" where
  "stale_abz k = map_option (\<lambda>p. p\<lparr>updated := 0, lastText := ''old'', users := []\<rparr>)
                   (chatIndex known_abz k)"

section \<open>Lemmas about the model\<close>

lemma refresh_ids_append: "refresh_ids (xs @ ys) = refresh_ids xs @ refresh_ids ys"
  by (induction xs rule: refresh_ids.induct) simp_all

lemma listing_offsets_append: "listing_offsets (xs @ ys) = listing_offsets xs @ listing_offsets ys"
  by (induction xs rule: listing_offsets.induct) simp_all

lemma replies_append: "replies (xs @ ys) = replies xs @ replies ys"
  by (induction xs rule: replies.induct) simp_all

lemma avitoApi_fields:
  "chatIndex (snd (avitoApi remote req s)) = chatIndex s"
  "webhookSeen (snd (avitoApi remote req s)) = webhookSeen s"
  "syncState (snd (avitoApi remote req s)) = syncState s"
  "files (snd (avitoApi remote req s)) = files s"
  "events (snd (avitoApi remote req s)) = events s @ [Api_call req (remote (length (events s)) req)]"
  "fst (avitoApi remote req s) = remote (length (events s)) req"
  by (simp_all add: avitoApi_def Let_def)

lemma saveChatMessages_fields:
  "chatIndex (saveChatMessages i m s) = chatIndex s"
  "webhookSeen (saveChatMessages i m s) = webhookSeen s"
  "syncState (saveChatMessages i m s) = syncState s"
  "events (saveChatMessages i m s) = events s"
  by (simp_all add: saveChatMessages_def Let_def split: option.splits)

lemma updateChatCache_fields:
  "chatIndex (snd (updateChatCache remote i s)) = chatIndex s"
  "webhookSeen (snd (updateChatCache remote i s)) = webhookSeen s"
  "syncState (snd (updateChatCache remote i s)) = syncState s"
  "events (snd (updateChatCache remote i s)) =
     events s @ [Api_call (Get_messages i) (remote (length (events s)) (Get_messages i))]"
  by (simp_all add: updateChatCache_def avitoApi_def Let_def saveChatMessages_fields split: option.splits)

lemma updateChatCache_result:
  "fst (updateChatCache remote i s) = (messages_of (remote (length (events s)) (Get_messages i)) \<noteq> None)"
  by (simp add: updateChatCache_def avitoApi_def Let_def messages_of_def split: option.splits)

lemma fetch_pages_fields:
  "chatIndex (snd (fetch_pages remote offs s)) = chatIndex s \<and>
   webhookSeen (snd (fetch_pages remote offs s)) = webhookSeen s \<and>
   syncState (snd (fetch_pages remote offs s)) = syncState s \<and>
   files (snd (fetch_pages remote offs s)) = files s \<and>
   refresh_ids (events (snd (fetch_pages remote offs s))) = refresh_ids (events s) \<and>
   replies (events (snd (fetch_pages remote offs s))) = replies (events s) \<and>
   length (filter refresh_failed (events (snd (fetch_pages remote offs s)))) = length (filter refresh_failed (events s)) \<and>
   length (filter refresh_succeeded (events (snd (fetch_pages remote offs s)))) = length (filter refresh_succeeded (events s)) \<and>
   (\<exists>new. events (snd (fetch_pages remote offs s)) = events s @ new)"
proof (induction offs arbitrary: s)
  case Nil
  show ?case by simp
next
  case (Cons a offs)
  show ?case
    using Cons.IH[of "snd (avitoApi remote (List_chats a) s)"]
    by (auto simp: avitoApi_fields refresh_ids_append replies_append split_beta Let_def split: option.splits prod.splits)
qed

lemma refresh_loop_spec:
  "refresh_loop remote cs (a, b, e) s = ((a', b', e'), s') \<Longrightarrow>
     a' = a + length cs \<and>
     chatIndex s' = chatIndex s \<and> webhookSeen s' = webhookSeen s \<and> syncState s' = syncState s \<and>
     refresh_ids (events s') = refresh_ids (events s) @ map chat_id (filter (is_dirty (chatIndex s)) cs) \<and>
     listing_offsets (events s') = listing_offsets (events s) \<and>
     replies (events s') = replies (events s) \<and>
     length (filter refresh_failed (events s')) + e = length (filter refresh_failed (events s)) + e' \<and>
     length (filter refresh_succeeded (events s')) + b = length (filter refresh_succeeded (events s)) + b' \<and>
     (\<exists>new. events s' = events s @ new)"
proof (induction cs arbitrary: a b e s)
  case Nil
  then show ?case by simp
next
  case (Cons c cs)
  show ?case
  proof (cases "is_dirty (chatIndex s) c")
    case False
    then have step: "refresh_loop remote cs (a + 1, b, e) s = ((a', b', e'), s')"
      using Cons.prems by (simp add: is_dirty_def Let_def split: option.splits)
    show ?thesis using Cons.IH[OF step] False by simp
  next
    case True
    let ?r = "updateChatCache remote (chat_id c) s"
    let ?resp = "remote (length (events s)) (Get_messages (chat_id c))"
    show ?thesis
    proof (cases "fst ?r")
      case ok: True
      then have step: "refresh_loop remote cs (a + 1, b + 1, e) (snd ?r) = ((a', b', e'), s')"
        using Cons.prems True by (simp add: is_dirty_def Let_def split_beta split: option.splits)
      have "messages_of ?resp \<noteq> None" using ok by (simp add: updateChatCache_result)
      then show ?thesis using Cons.IH[OF step] True
        by (auto simp: updateChatCache_fields refresh_ids_append listing_offsets_append replies_append)
    next
      case bad: False
      then have step: "refresh_loop remote cs (a + 1, b, e + 1) (snd ?r) = ((a', b', e'), s')"
        using Cons.prems True by (simp add: is_dirty_def Let_def split_beta split: option.splits)
      have "messages_of ?resp = None" using bad by (simp add: updateChatCache_result)
      then show ?thesis using Cons.IH[OF step] True
        by (auto simp: updateChatCache_fields refresh_ids_append listing_offsets_append replies_append)
    qed
  qed
qed

lemma fetch_pages_events_only:
  "events s = events t \<Longrightarrow>
     fst (fetch_pages remote offs s) = fst (fetch_pages remote offs t) \<and>
     events (snd (fetch_pages remote offs s)) = events (snd (fetch_pages remote offs t))"
proof (induction offs arbitrary: s t)
  case Nil
  then show ?case by simp
next
  case (Cons a offs)
  have e: "events (snd (avitoApi remote (List_chats a) s)) = events (snd (avitoApi remote (List_chats a) t))"
    using Cons.prems by (simp add: avitoApi_fields)
  show ?case using Cons.IH[OF e] Cons.prems
    by (auto simp: avitoApi_def Let_def split_beta split: option.splits)
qed

lemma periodicSync_unfold:
  assumes "\<not> isRunning (syncState s)"
  obtains s1 s2 a b e where
    "fetch_pages remote page_offsets (s\<lparr>syncState := (syncState s)\<lparr>isRunning := True\<rparr>\<rparr>)
       = (sweep_listing remote s, s1)"
    "refresh_loop remote (sweep_listing remote s) (0, 0, 0) s1 = ((a, b, e), s2)"
    "periodicSync cfg remote s =
       s2\<lparr>chatIndex := build_index cfg (sweep_listing remote s) Map.empty,
          syncState := \<lparr>chatsChecked = a, chatsUpdated = b, chatsMissed = 0,
                        isRunning = False, errors = e\<rparr>\<rparr>"
proof -
  let ?s0 = "s\<lparr>syncState := (syncState s)\<lparr>isRunning := True\<rparr>\<rparr>"
  obtain cs s1 where f: "fetch_pages remote page_offsets ?s0 = (cs, s1)" by (cases "fetch_pages remote page_offsets ?s0")
  have "events ?s0 = events s" by simp
  from fetch_pages_events_only[OF this, of remote page_offsets] f
  have cs: "cs = sweep_listing remote s" by (simp add: sweep_listing_def)
  obtain a b e s2 where r: "refresh_loop remote cs (0, 0, 0) s1 = ((a, b, e), s2)"
    by (metis prod_cases3 surj_pair)
  have "periodicSync cfg remote s =
       s2\<lparr>chatIndex := build_index cfg cs Map.empty,
          syncState := \<lparr>chatsChecked = a, chatsUpdated = b, chatsMissed = 0,
                        isRunning = False, errors = e\<rparr>\<rparr>"
    using assms f r by (simp add: periodicSync_def Let_def)
  then show ?thesis using that f r cs by simp
qed

lemma sweep_core:
  assumes "\<not> isRunning (syncState s)"
  shows "events (periodicSync cfg remote s) = events s @ sweep_events cfg remote s \<and>
    refresh_ids (sweep_events cfg remote s) =
      map chat_id (filter (is_dirty (chatIndex s)) (sweep_listing remote s)) \<and>
    replies (sweep_events cfg remote s) = [] \<and>
    chatsChecked (syncState (periodicSync cfg remote s)) = length (sweep_listing remote s) \<and>
    errors (syncState (periodicSync cfg remote s)) =
      length (filter refresh_failed (sweep_events cfg remote s)) \<and>
    chatsUpdated (syncState (periodicSync cfg remote s)) =
      length (filter refresh_succeeded (sweep_events cfg remote s)) \<and>
    chatIndex (periodicSync cfg remote s) = build_index cfg (sweep_listing remote s) Map.empty \<and>
    webhookSeen (periodicSync cfg remote s) = webhookSeen s \<and>
    \<not> isRunning (syncState (periodicSync cfg remote s))"
proof -
  let ?s0 = "s\<lparr>syncState := (syncState s)\<lparr>isRunning := True\<rparr>\<rparr>"
  obtain s1 s2 a b e where
    f: "fetch_pages remote page_offsets ?s0 = (sweep_listing remote s, s1)" and
    r: "refresh_loop remote (sweep_listing remote s) (0, 0, 0) s1 = ((a, b, e), s2)" and
    p: "periodicSync cfg remote s =
       s2\<lparr>chatIndex := build_index cfg (sweep_listing remote s) Map.empty,
          syncState := \<lparr>chatsChecked = a, chatsUpdated = b, chatsMissed = 0,
                        isRunning = False, errors = e\<rparr>\<rparr>"
    using periodicSync_unfold[OF assms] by metis
  have s1: "s1 = snd (fetch_pages remote page_offsets ?s0)" using f by simp
  note F = fetch_pages_fields[of remote page_offsets ?s0, folded s1]
  note R = refresh_loop_spec[OF r]
  from F obtain n1 where n1: "events s1 = events s @ n1" by auto
  from R obtain n2 where n2: "events s2 = events s1 @ n2" by auto
  have ev: "events (periodicSync cfg remote s) = events s @ n1 @ n2"
    using p n1 n2 by simp
  then have se: "sweep_events cfg remote s = n1 @ n2" by (simp add: sweep_events_def)
  have ci: "chatIndex s1 = chatIndex s" using F by simp
  have "refresh_ids (events s2) = refresh_ids (events s) @
          map chat_id (filter (is_dirty (chatIndex s)) (sweep_listing remote s))"
    using R F ci by simp
  then have ids: "refresh_ids (n1 @ n2) =
          map chat_id (filter (is_dirty (chatIndex s)) (sweep_listing remote s))"
    using n1 n2 by (simp add: refresh_ids_append)
  have "replies (events s2) = replies (events s)" using R F by simp
  then have rep: "replies (n1 @ n2) = []" using n1 n2 by (simp add: replies_append)
  have "length (filter refresh_failed (events s2)) = length (filter refresh_failed (events s)) + e"
    using R F by simp
  then have er: "e = length (filter refresh_failed (n1 @ n2))" using n1 n2 by simp
  have "length (filter refresh_succeeded (events s2)) = length (filter refresh_succeeded (events s)) + b"
    using R F by simp
  then have up: "b = length (filter refresh_succeeded (n1 @ n2))" using n1 n2 by simp
  have ch: "a = length (sweep_listing remote s)" using R by simp
  have ws: "webhookSeen s2 = webhookSeen s" using R F by simp
  show ?thesis using ev se ids rep er up ch ws p by simp
qed

lemma build_index_map_of:
  "build_index cfg cs m = m ++ map_of (rev (map (\<lambda>c. (chat_id c, summary_of cfg c)) cs))"
  by (induction cs arbitrary: m) simp_all

lemma sweep_listing_events_only:
  "events s = events t \<Longrightarrow> sweep_listing remote s = sweep_listing remote t"
  using fetch_pages_events_only[of s t remote page_offsets] by (simp add: sweep_listing_def)

lemma count_filter_le:
  "count_list (map f (filter P ys)) k \<le> count_list (map f ys) k"
  by (induction ys) auto

lemma count_filter_once:
  "c \<in> set cs \<Longrightarrow> count_list (map f cs) (f c) = 1 \<Longrightarrow>
     count_list (map f (filter P cs)) (f c) = (if P c then 1 else (0::nat))"
proof (induction cs)
  case Nil
  then show ?case by simp
next
  case (Cons x xs)
  show ?case
  proof (cases "f x = f c")
    case True
    then have z: "count_list (map f xs) (f c) = 0" using Cons.prems by simp
    then have "c \<notin> set xs" by (metis count_list_0_iff image_eqI list.set_map)
    then have "x = c" using Cons.prems by simp
    moreover have "count_list (map f (filter P xs)) (f c) = 0"
      using count_filter_le[of f P xs "f c"] z by simp
    ultimately show ?thesis by simp
  next
    case False
    then show ?thesis using Cons by auto
  qed
qed

lemma avitoApi_seen:
  "avitoApi r q (s\<lparr>webhookSeen := w\<rparr>) =
     (fst (avitoApi r q s), (snd (avitoApi r q s))\<lparr>webhookSeen := w\<rparr>)"
  by (simp add: avitoApi_def Let_def)

lemma saveChatMessages_seen:
  "saveChatMessages i m (s\<lparr>webhookSeen := w\<rparr>) = (saveChatMessages i m s)\<lparr>webhookSeen := w\<rparr>"
  by (simp add: saveChatMessages_def Let_def split: option.splits)

lemma updateChatCache_seen:
  "updateChatCache r i (s\<lparr>webhookSeen := w\<rparr>) =
     (fst (updateChatCache r i s), (snd (updateChatCache r i s))\<lparr>webhookSeen := w\<rparr>)"
  by (simp add: updateChatCache_def avitoApi_seen saveChatMessages_seen split_beta split: option.splits)

lemma fetch_pages_seen:
  "fetch_pages r offs (s\<lparr>webhookSeen := w\<rparr>) =
     (fst (fetch_pages r offs s), (snd (fetch_pages r offs s))\<lparr>webhookSeen := w\<rparr>)"
proof (induction offs arbitrary: s)
  case Nil
  show ?case by simp
next
  case (Cons a offs)
  show ?case
    by (simp add: avitoApi_seen Cons.IH split_beta Let_def split: option.splits)
qed

lemma refresh_loop_seen:
  "refresh_loop r cs acc (s\<lparr>webhookSeen := w\<rparr>) =
     (fst (refresh_loop r cs acc s), (snd (refresh_loop r cs acc s))\<lparr>webhookSeen := w\<rparr>)"
proof (induction cs arbitrary: acc s)
  case Nil
  show ?case by simp
next
  case (Cons c cs)
  obtain a b e where acc: "acc = (a, b, e)" by (cases acc) auto
  show ?case
    by (simp add: acc Let_def updateChatCache_seen split_beta Cons.IH)
qed

lemma periodicSync_seen:
  "periodicSync cfg remote (s\<lparr>webhookSeen := w\<rparr>) = (periodicSync cfg remote s)\<lparr>webhookSeen := w\<rparr>"
proof -
  let ?s0 = "s\<lparr>syncState := (syncState s)\<lparr>isRunning := True\<rparr>\<rparr>"
  have sw: "s\<lparr>webhookSeen := w, syncState := (syncState s)\<lparr>isRunning := True\<rparr>\<rparr> = ?s0\<lparr>webhookSeen := w\<rparr>"
    by simp
  show ?thesis
    by (simp add: periodicSync_def Let_def sw fetch_pages_seen refresh_loop_seen split_beta
             del: server.simps)
qed


lemma json_name_neq_txt_name: "a @ ''.json'' \<noteq> b @ ''.txt''"
proof
  assume "a @ ''.json'' = b @ ''.txt''"
  then have "last (a @ ''.json'') = last (b @ ''.txt'')" by simp
  then show False by simp
qed

lemma contains_escape_iff: "contains_escape x \<longleftrightarrow> (\<exists>u v. x = u @ ''%2F'' @ v)"
proof (induction x)
  case Nil
  show ?case by simp
next
  case (Cons c cs)
  have p: "(c = CHR ''%'' \<and> take 2 cs = ''2F'') \<longleftrightarrow> (\<exists>v. c # cs = ''%2F'' @ v)"
  proof
    assume a: "c = CHR ''%'' \<and> take 2 cs = ''2F''"
    then have "cs = ''2F'' @ drop 2 cs" by (metis append_take_drop_id)
    then show "\<exists>v. c # cs = ''%2F'' @ v" using a by auto
  next
    assume "\<exists>v. c # cs = ''%2F'' @ v"
    then show "c = CHR ''%'' \<and> take 2 cs = ''2F''" by auto
  qed
  have q: "(\<exists>u v. c # cs = u @ ''%2F'' @ v) \<longleftrightarrow> (\<exists>v. c # cs = ''%2F'' @ v) \<or> (\<exists>u v. cs = u @ ''%2F'' @ v)"
  proof
    assume "\<exists>u v. c # cs = u @ ''%2F'' @ v"
    then obtain u v where uv: "c # cs = u @ ''%2F'' @ v" by blast
    show "(\<exists>v. c # cs = ''%2F'' @ v) \<or> (\<exists>u v. cs = u @ ''%2F'' @ v)"
    proof (cases u)
      case Nil
      then show ?thesis using uv by auto
    next
      case (Cons d ds)
      then have "cs = ds @ ''%2F'' @ v" using uv by simp
      then show ?thesis by blast
    qed
  next
    assume "(\<exists>v. c # cs = ''%2F'' @ v) \<or> (\<exists>u v. cs = u @ ''%2F'' @ v)"
    then show "\<exists>u v. c # cs = u @ ''%2F'' @ v"
    proof
      assume "\<exists>v. c # cs = ''%2F'' @ v"
      then obtain v where "c # cs = [] @ ''%2F'' @ v" by auto
      then show ?thesis by blast
    next
      assume "\<exists>u v. cs = u @ ''%2F'' @ v"
      then obtain u v where "cs = u @ ''%2F'' @ v" by blast
      then have "c # cs = (c # u) @ ''%2F'' @ v" by simp
      then show ?thesis by blast
    qed
  qed
  show ?case using Cons.IH p q by simp
qed

lemma safeName_no_slash: "CHR ''/'' \<notin> set (safeName x)"
  by (induction x) auto

lemma safeName_id: "CHR ''/'' \<notin> set y \<Longrightarrow> safeName y = y"
  by (induction y) auto

lemma safeName_idem: "safeName (safeName x) = safeName x"
  by (rule safeName_id) (rule safeName_no_slash)

lemma take2_safeName: "take 2 (safeName cs) = ''2F'' \<Longrightarrow> take 2 cs = ''2F''"
proof (cases cs)
  case Nil
  assume "take 2 (safeName cs) = ''2F''"
  then show ?thesis using Nil by simp
next
  case (Cons d ds)
  assume a: "take 2 (safeName cs) = ''2F''"
  show ?thesis
  proof (cases ds)
    case Nil
    then show ?thesis using a Cons by (simp split: if_splits)
  next
    case (Cons e es)
    then show ?thesis using a \<open>cs = d # ds\<close> by (simp split: if_splits)
  qed
qed

lemma decode_safeName: "\<not> contains_escape x \<Longrightarrow> decodeName (safeName x) = x"
proof (induction x)
  case Nil
  show ?case by simp
next
  case (Cons c cs)
  then have ih: "decodeName (safeName cs) = cs" and ne: "\<not> (c = CHR ''%'' \<and> take 2 cs = ''2F'')"
    by simp_all
  show ?case
  proof (cases "c = CHR ''/''")
    case True
    then show ?thesis using ih by simp
  next
    case False
    have "\<not> (c = CHR ''%'' \<and> take 2 (safeName cs) = ''2F'')"
      using ne take2_safeName by blast
    then show ?thesis using False ih by simp
  qed
qed

lemma fetch_pages_abort:
  assumes "length offs1 = length pages"
    and "\<forall>i < length pages.
           chats_of (remote (length (events s) + i) (List_chats (offs1 ! i))) = Some (pages ! i) \<and>
           100 \<le> length (pages ! i)"
    and "chats_of (remote (length (events s) + length pages) (List_chats off)) = None"
  shows "fst (fetch_pages remote (offs1 @ off # offs2) s) = concat pages \<and>
         listing_offsets (events (snd (fetch_pages remote (offs1 @ off # offs2) s))) =
           listing_offsets (events s) @ offs1 @ [off]"
  using assms
proof (induction pages arbitrary: offs1 s)
  case Nil
  then show ?case
    by (auto simp: avitoApi_def chats_of_def Let_def listing_offsets_append split: option.splits)
next
  case (Cons p ps)
  then obtain a os where offs1: "offs1 = a # os" by (cases offs1) auto
  let ?s1 = "snd (avitoApi remote (List_chats a) s)"
  have len: "length (events ?s1) = Suc (length (events s))" by (simp add: avitoApi_fields)
  have p0: "chats_of (remote (length (events s)) (List_chats a)) = Some p" and big: "100 \<le> length p"
    using Cons.prems(2) offs1 by (auto dest: spec[of _ 0])
  have rest: "\<forall>i < length ps.
           chats_of (remote (length (events ?s1) + i) (List_chats (os ! i))) = Some (ps ! i) \<and>
           100 \<le> length (ps ! i)"
  proof (intro allI impI)
    fix i assume "i < length ps"
    then have "Suc i < length (p # ps)" by simp
    from Cons.prems(2)[rule_format, OF this] show
      "chats_of (remote (length (events ?s1) + i) (List_chats (os ! i))) = Some (ps ! i) \<and>
           100 \<le> length (ps ! i)"
      using offs1 len by simp
  qed
  have fail: "chats_of (remote (length (events ?s1) + length ps) (List_chats off)) = None"
    using Cons.prems(3) len by simp
  have l: "length os = length ps" using Cons.prems(1) offs1 by simp
  note ih = Cons.IH[OF l rest fail]
  have step: "fetch_pages remote ((a # os) @ off # offs2) s =
          (p @ fst (fetch_pages remote (os @ off # offs2) ?s1),
           snd (fetch_pages remote (os @ off # offs2) ?s1))"
    using p0 big
    by (auto simp: avitoApi_def chats_of_def Let_def split_beta split: option.splits)
  show ?case using ih step offs1
    by (simp add: avitoApi_fields listing_offsets_append)
qed

lemma page_offsets_split:
  assumes "k < 11"
  shows "page_offsets = map (\<lambda>i. 100 * i) [0..<k] @ (100 * k) # map (\<lambda>i. 100 * i) [Suc k..<11]"
proof -
  have "[0..<11] = [0..<k] @ k # [Suc k..<11]"
    using assms by (metis less_imp_add_positive upt_add_eq_append upt_conv_Cons zero_le add.left_neutral less_or_eq_imp_le)
  then show ?thesis by (simp add: page_offsets_def)
qed

lemma sweep_listing_offsets:
  assumes "\<not> isRunning (syncState s)"
  shows "listing_offsets (events (periodicSync cfg remote s)) =
           listing_offsets (events (snd (fetch_pages remote page_offsets s)))"
proof -
  let ?s0 = "s\<lparr>syncState := (syncState s)\<lparr>isRunning := True\<rparr>\<rparr>"
  obtain s1 s2 a b e where
    f: "fetch_pages remote page_offsets ?s0 = (sweep_listing remote s, s1)" and
    r: "refresh_loop remote (sweep_listing remote s) (0, 0, 0) s1 = ((a, b, e), s2)" and
    p: "periodicSync cfg remote s =
       s2\<lparr>chatIndex := build_index cfg (sweep_listing remote s) Map.empty,
          syncState := \<lparr>chatsChecked = a, chatsUpdated = b, chatsMissed = 0,
                        isRunning = False, errors = e\<rparr>\<rparr>"
    using periodicSync_unfold[OF assms] by metis
  have "events ?s0 = events s" by simp
  from fetch_pages_events_only[OF this, of remote page_offsets] f
  have "events s1 = events (snd (fetch_pages remote page_offsets s))" by simp
  then show ?thesis using refresh_loop_spec[OF r] p by simp
qed

lemma idle_not_running: "\<not> isRunning (syncState idle)"
  by (simp add: idle_def)

lemma known_abz_not_running: "\<not> isRunning (syncState known_abz)"
  by (simp add: known_abz_def idle_def)

lemma listing_three_chats: "sweep_listing three_chats s = abc"
  by (simp add: sweep_listing_def page_offsets_def upt_rec three_chats_def avitoApi_def abc_def Let_def)

lemma dirty_known_abz: "filter (is_dirty (chatIndex known_abz)) abc = [chat_of ''c'' ''m3'']"
  by (simp add: is_dirty_def known_abz_def idle_def abc_def chat_of_def summary_of_def listed_lastMsgId_def)

lemma page100_length: "length page100 = 100"
  by (simp add: page100_def)

lemma page100_nonempty: "page100 \<noteq> []"
  using page100_length by auto

lemma page100_count_x: "count_list (map chat_id page100) ''x'' = 1"
proof -
  have "''x'' \<notin> set (map chat_id (map (\<lambda>i. chat_of (replicate (Suc i) (CHR ''a'')) ''m1'') [0..<99]))"
    by (auto simp: chat_of_def)
  then have "count_list (map chat_id (map (\<lambda>i. chat_of (replicate (Suc i) (CHR ''a'')) ''m1'') [0..<99])) ''x'' = 0"
    using count_list_0_iff by metis
  then show ?thesis by (simp add: page100_def chat_of_def)
qed

lemma listing_shifted: "sweep_listing shifted idle = page100 @ [chat_of ''x'' ''m1'']"
  by (simp add: sweep_listing_def page_offsets_def upt_rec shifted_def avitoApi_def Let_def
        page100_length page100_nonempty)

section \<open>Claims\<close>

subsection \<open>C1: which conversations a sweep refreshes\<close>

text \<open>
  Claim C1, as the code has it. A sweep that starts while no other sweep is running issues
  its refresh requests for exactly the listed entries that are dirty against the index it
  started from, in listing order; an entry is dirty when the index has no entry for its id
  or an entry with another last message id, and nothing else is looked at. So a
  conversation that the listing contains once is refreshed exactly once if it is dirty and
  not at all if its listed last message id equals the one in the index. The count is per
  listed occurrence: the loop does not remember what it has refreshed. Two indexes that
  agree on the last message id of every entry lead to the same refresh requests, whatever
  their other fields hold.
\<close>

theorem sweep_refreshes_dirty:
  assumes "\<not> isRunning (syncState s)"
  shows "refresh_ids (sweep_events cfg remote s) =
           map chat_id (filter (is_dirty (chatIndex s)) (sweep_listing remote s)) \<and>
         (\<forall>c \<in> set (sweep_listing remote s).
            count_list (map chat_id (sweep_listing remote s)) (chat_id c) = 1 \<longrightarrow>
            count_list (refresh_ids (sweep_events cfg remote s)) (chat_id c) =
              (if is_dirty (chatIndex s) c then 1 else 0)) \<and>
         (\<forall>idx. (\<forall>k. map_option lastMsgId (idx k) = map_option lastMsgId (chatIndex s k)) \<longrightarrow>
            refresh_ids (sweep_events cfg remote (s\<lparr>chatIndex := idx\<rparr>)) =
              refresh_ids (sweep_events cfg remote s))"
proof -
  have ids: "refresh_ids (sweep_events cfg remote s) =
           map chat_id (filter (is_dirty (chatIndex s)) (sweep_listing remote s))"
    using sweep_core[OF assms] by simp
  have same: "refresh_ids (sweep_events cfg remote (s\<lparr>chatIndex := idx\<rparr>)) =
              refresh_ids (sweep_events cfg remote s)"
    if agree: "\<forall>k. map_option lastMsgId (idx k) = map_option lastMsgId (chatIndex s k)" for idx
  proof -
    have nr: "\<not> isRunning (syncState (s\<lparr>chatIndex := idx\<rparr>))" using assms by simp
    have l: "sweep_listing remote (s\<lparr>chatIndex := idx\<rparr>) = sweep_listing remote s"
      by (rule sweep_listing_events_only) simp
    have "is_dirty idx c = is_dirty (chatIndex s) c" for c
      using agree[rule_format, of "chat_id c"]
      by (cases "idx (chat_id c)"; cases "chatIndex s (chat_id c)") (simp_all add: is_dirty_def)
    then have d: "is_dirty idx = is_dirty (chatIndex s)" by (simp add: fun_eq_iff)
    have "refresh_ids (sweep_events cfg remote (s\<lparr>chatIndex := idx\<rparr>)) =
            map chat_id (filter (is_dirty idx) (sweep_listing remote s))"
      using sweep_core[OF nr, of cfg remote] l by simp
    then show ?thesis using ids d by simp
  qed
  show ?thesis
  proof (intro conjI ballI allI impI)
    show "refresh_ids (sweep_events cfg remote s) =
           map chat_id (filter (is_dirty (chatIndex s)) (sweep_listing remote s))"
      by (rule ids)
  next
    fix c
    assume "c \<in> set (sweep_listing remote s)"
      and "count_list (map chat_id (sweep_listing remote s)) (chat_id c) = 1"
    then show "count_list (refresh_ids (sweep_events cfg remote s)) (chat_id c) =
              (if is_dirty (chatIndex s) c then 1 else 0)"
      unfolding ids by (rule count_filter_once)
  next
    fix idx :: "string \<rightharpoonup> summary"
    assume "\<forall>k. map_option lastMsgId (idx k) = map_option lastMsgId (chatIndex s k)"
    then show "refresh_ids (sweep_events cfg remote (s\<lparr>chatIndex := idx\<rparr>)) =
              refresh_ids (sweep_events cfg remote s)"
      by (rule same)
  qed
qed

theorem sweep_refreshes_dirty_witness:
  "\<not> isRunning (syncState known_abz) \<and>
   refresh_ids (sweep_events cfg0 three_chats known_abz) = [''c''] \<and>
   count_list (refresh_ids (sweep_events cfg0 three_chats known_abz)) ''c'' = 1 \<and>
   count_list (refresh_ids (sweep_events cfg0 three_chats known_abz)) ''a'' = 0 \<and>
   (\<forall>k. map_option lastMsgId (stale_abz k) = map_option lastMsgId (chatIndex known_abz k)) \<and>
   refresh_ids (sweep_events cfg0 three_chats (known_abz\<lparr>chatIndex := stale_abz\<rparr>)) = [''c'']"
proof -
  note t = sweep_refreshes_dirty[OF known_abz_not_running, of cfg0 three_chats]
  have ids: "refresh_ids (sweep_events cfg0 three_chats known_abz) = [''c'']"
    using t[THEN conjunct1] by (simp add: listing_three_chats dirty_known_abz chat_of_def)
  have agree: "\<forall>k. map_option lastMsgId (stale_abz k) = map_option lastMsgId (chatIndex known_abz k)"
    by (simp add: stale_abz_def option.map_comp comp_def)
  have stale: "refresh_ids (sweep_events cfg0 three_chats (known_abz\<lparr>chatIndex := stale_abz\<rparr>)) = [''c'']"
    using t[THEN conjunct2, THEN conjunct2, THEN spec, THEN mp, OF agree] ids by simp
  show ?thesis using known_abz_not_running ids agree stale by simp
qed

text \<open>
  The spec's "exactly one refresh call" does not hold for every conversation. With offset
  pagination a conversation can be listed on two pages of the same sweep; it is compared
  both times with the index of before the sweep and refreshed both times.
\<close>

theorem listed_twice_refreshed_twice:
  "chatIndex idle ''x'' = None \<and>
   sweep_listing shifted idle = page100 @ [chat_of ''x'' ''m1''] \<and>
   count_list (map chat_id (sweep_listing shifted idle)) ''x'' = 2 \<and>
   count_list (refresh_ids (sweep_events cfg0 shifted idle)) ''x'' = 2"
proof -
  have a: "chatIndex idle ''x'' = None" by (simp add: idle_def)
  have dirty: "is_dirty (chatIndex idle) c" for c by (simp add: is_dirty_def idle_def)
  have c: "count_list (map chat_id (sweep_listing shifted idle)) ''x'' = 2"
    by (simp add: listing_shifted page100_count_x chat_of_def)
  have "refresh_ids (sweep_events cfg0 shifted idle) = map chat_id (sweep_listing shifted idle)"
    using sweep_core[OF idle_not_running, of cfg0 shifted] by (simp add: dirty)
  then have d: "count_list (refresh_ids (sweep_events cfg0 shifted idle)) ''x'' = 2"
    using c by simp
  show ?thesis using a c d listing_shifted by simp
qed

subsection \<open>C2: the index after a sweep\<close>

text \<open>
  Claim C2. After a sweep the index is the map built from that sweep's listing alone, a
  later occurrence of an id overwriting an earlier one: its keys are exactly the listed
  ids, a conversation listed once has the summary built from its listing entry, every
  other id has no entry, and the result is the same whatever index the sweep started from.
\<close>

theorem index_replaced_wholesale:
  assumes "\<not> isRunning (syncState s)"
  shows "chatIndex (periodicSync cfg remote s) =
           map_of (rev (map (\<lambda>c. (chat_id c, summary_of cfg c)) (sweep_listing remote s))) \<and>
         dom (chatIndex (periodicSync cfg remote s)) = chat_id ` set (sweep_listing remote s) \<and>
         (distinct (map chat_id (sweep_listing remote s)) \<longrightarrow>
            (\<forall>c \<in> set (sweep_listing remote s).
               chatIndex (periodicSync cfg remote s) (chat_id c) = Some (summary_of cfg c))) \<and>
         (\<forall>old. chatIndex (periodicSync cfg remote (s\<lparr>chatIndex := old\<rparr>)) =
                chatIndex (periodicSync cfg remote s))"
proof -
  let ?ps = "map (\<lambda>c. (chat_id c, summary_of cfg c)) (sweep_listing remote s)"
  have idx: "chatIndex (periodicSync cfg remote s) = map_of (rev ?ps)"
    using sweep_core[OF assms] by (simp add: build_index_map_of)
  have d: "dom (map_of (rev ?ps)) = chat_id ` set (sweep_listing remote s)"
    by (simp add: dom_map_of_conv_image_fst image_image)
  have fs: "map fst ?ps = map chat_id (sweep_listing remote s)" by (simp add: comp_def)
  have dist: "distinct (map chat_id (sweep_listing remote s)) \<Longrightarrow> c \<in> set (sweep_listing remote s) \<Longrightarrow>
          map_of (rev ?ps) (chat_id c) = Some (summary_of cfg c)" for c
  proof -
    assume a: "distinct (map chat_id (sweep_listing remote s))" "c \<in> set (sweep_listing remote s)"
    have "distinct (map fst (rev ?ps))" using a(1) by (simp add: rev_map[symmetric] comp_def)
    moreover have "(chat_id c, summary_of cfg c) \<in> set (rev ?ps)" using a(2) by auto
    ultimately show ?thesis by (rule map_of_is_SomeI)
  qed
  have old: "chatIndex (periodicSync cfg remote (s\<lparr>chatIndex := old\<rparr>)) = map_of (rev ?ps)" for old
  proof -
    have nr: "\<not> isRunning (syncState (s\<lparr>chatIndex := old\<rparr>))" using assms by simp
    have "sweep_listing remote (s\<lparr>chatIndex := old\<rparr>) = sweep_listing remote s"
      by (rule sweep_listing_events_only) simp
    then show ?thesis using sweep_core[OF nr, of cfg remote] by (simp add: build_index_map_of)
  qed
  show ?thesis using idx d dist old by simp
qed

theorem index_replaced_wholesale_witness:
  "\<not> isRunning (syncState known_abz) \<and>
   dom (chatIndex (periodicSync cfg0 three_chats known_abz)) = {''a'', ''b'', ''c''} \<and>
   chatIndex (periodicSync cfg0 three_chats known_abz) ''c'' = Some (summary_of cfg0 (chat_of ''c'' ''m3'')) \<and>
   chatIndex (periodicSync cfg0 three_chats known_abz) ''z'' = None"
proof -
  note t = index_replaced_wholesale[OF known_abz_not_running, of cfg0 three_chats]
  have m: "chatIndex (periodicSync cfg0 three_chats known_abz) =
             map_of (rev (map (\<lambda>c. (chat_id c, summary_of cfg0 c)) abc))"
    using t[THEN conjunct1] by (simp only: listing_three_chats)
  have d0: "dom (chatIndex (periodicSync cfg0 three_chats known_abz)) = chat_id ` set abc"
    using t[THEN conjunct2, THEN conjunct1] by (simp only: listing_three_chats)
  have d1: "chat_id ` set abc = {''a'', ''b'', ''c''}"
    by (simp add: abc_def chat_of_def)
  have c: "chatIndex (periodicSync cfg0 three_chats known_abz) ''c'' = Some (summary_of cfg0 (chat_of ''c'' ''m3''))"
    unfolding m by (simp add: abc_def chat_of_def)
  have z: "chatIndex (periodicSync cfg0 three_chats known_abz) ''z'' = None"
    unfolding m by (simp add: abc_def chat_of_def)
  show ?thesis using known_abz_not_running d0 d1 c z by simp
qed

subsection \<open>C3: the result of one refresh\<close>




subsection \<open>C4: single flight\<close>

text \<open>
  Claim C4, as the code has it. While the running flag is set, \<^const>\<open>periodicSync\<close>
  returns at once: it issues no request and changes nothing. It has no report to give: the
  function returns nothing on every path, and an authorised \<^verbatim>\<open>POST /sync\<close> does
  nothing but send its usual reply.
\<close>

theorem sweep_single_flight:
  assumes "isRunning (syncState s)"
  shows "periodicSync cfg remote s = s \<and> sweep_events cfg remote s = [] \<and>
         (checkAuth cfg header \<longrightarrow>
            post_sync cfg remote header s = sendJson 200 Body_triggered s)"
  using assms by (simp add: periodicSync_def sweep_events_def post_sync_def sendJson_def)

theorem sweep_single_flight_witness:
  "isRunning (syncState busy) \<and> checkAuth cfg0 None \<and>
   periodicSync cfg0 three_chats busy = busy \<and>
   sweep_events cfg0 three_chats busy = [] \<and>
   post_sync cfg0 three_chats None busy = sendJson 200 Body_triggered busy"
proof -
  have h: "isRunning (syncState busy)" by (simp add: busy_def)
  have a: "checkAuth cfg0 None" by (simp add: checkAuth_def cfg0_def)
  show ?thesis using h a sweep_single_flight[OF h, of cfg0 three_chats None] by simp
qed

text \<open>
  Nothing tells the caller that a sweep was already running. The only reply of
  \<^verbatim>\<open>POST /sync\<close> is sent before the sweep is started, and it is the same
  \<^verbatim>\<open>{triggered: true}\<close> while a sweep is in flight as when one is started.
\<close>

theorem in_flight_reply_is_triggered:
  "isRunning (syncState busy) \<and>
   replies (events (post_sync cfg0 three_chats None busy)) = [(200, Body_triggered)] \<and>
   \<not> isRunning (syncState idle) \<and>
   replies (events (post_sync cfg0 down None idle)) = [(200, Body_triggered)]"
proof -
  have a: "isRunning (syncState busy)" by (simp add: busy_def)
  have b: "replies (events (post_sync cfg0 three_chats None busy)) = [(200, Body_triggered)]"
    by code_simp
  have c: "replies (events (post_sync cfg0 down None idle)) = [(200, Body_triggered)]"
    by code_simp
  show ?thesis using a b c idle_not_running by simp
qed

subsection \<open>C5: refresh failures are isolated and counted\<close>



subsection \<open>C6: a failing listing page\<close>

text \<open>
  Claim C6, as the code has it. When the first \<open>k\<close> listing pages are full and the fetch
  of the next one fails (no data, or no \<^verbatim>\<open>chats\<close> field), the sweep asks for no further
  page and goes on with the conversations of the \<open>k\<close> pages: they are the listing the
  index is built from and the dirty entries are taken from. The failure adds nothing to the
  report: \<^verbatim>\<open>errors\<close> is the number of failed refreshes.
\<close>

theorem listing_failure_aborts_pagination:
  assumes "\<not> isRunning (syncState s)"
    and "k < 11"
    and "length pages = k"
    and "\<forall>i < k. chats_of (remote (length (events s) + i) (List_chats (100 * i))) = Some (pages ! i) \<and>
                  100 \<le> length (pages ! i)"
    and "chats_of (remote (length (events s) + k) (List_chats (100 * k))) = None"
  shows "sweep_listing remote s = concat pages \<and>
         listing_offsets (sweep_events cfg remote s) = map (\<lambda>i. 100 * i) [0..<Suc k] \<and>
         chatIndex (periodicSync cfg remote s) = build_index cfg (concat pages) Map.empty \<and>
         refresh_ids (sweep_events cfg remote s) =
           map chat_id (filter (is_dirty (chatIndex s)) (concat pages)) \<and>
         chatsChecked (syncState (periodicSync cfg remote s)) = length (concat pages) \<and>
         errors (syncState (periodicSync cfg remote s)) =
           length (filter refresh_failed (sweep_events cfg remote s))"
proof -
  let ?o1 = "map (\<lambda>i. 100 * i) [0..<k]"
  let ?o2 = "map (\<lambda>i. 100 * i) [Suc k..<11]"
  have split: "page_offsets = ?o1 @ (100 * k) # ?o2" using assms(2) by (rule page_offsets_split)
  have l: "length ?o1 = length pages" using assms(3) by simp
  have h: "\<forall>i < length pages.
           chats_of (remote (length (events s) + i) (List_chats (?o1 ! i))) = Some (pages ! i) \<and>
           100 \<le> length (pages ! i)"
    using assms(3,4) by simp
  have fl: "chats_of (remote (length (events s) + length pages) (List_chats (100 * k))) = None"
    using assms(3,5) by simp
  note ab = fetch_pages_abort[OF l h fl, of ?o2, folded split]
  have lst: "sweep_listing remote s = concat pages" using ab by (simp add: sweep_listing_def)
  note core = sweep_core[OF assms(1), of cfg remote]
  have "listing_offsets (events (periodicSync cfg remote s)) =
          listing_offsets (events s) @ ?o1 @ [100 * k]"
    using sweep_listing_offsets[OF assms(1), of cfg remote] ab by simp
  then have lo: "listing_offsets (sweep_events cfg remote s) = map (\<lambda>i. 100 * i) [0..<Suc k]"
    using core by (simp add: listing_offsets_append)
  show ?thesis using core lst lo by simp
qed

theorem listing_failure_aborts_pagination_witness:
  "\<not> isRunning (syncState idle) \<and>
   chats_of (full_then_fail (length (events idle) + 1) (List_chats (100 * 1))) = None \<and>
   sweep_listing full_then_fail idle = page100 \<and>
   listing_offsets (sweep_events cfg0 full_then_fail idle) = [0, 100] \<and>
   chatsChecked (syncState (periodicSync cfg0 full_then_fail idle)) = 100"
proof -
  have h1: "(1::nat) < 11" by simp
  have h2: "length [page100] = 1" by simp
  have h3: "\<forall>i < 1. chats_of (full_then_fail (length (events idle) + i) (List_chats (100 * i))) = Some ([page100] ! i) \<and>
                  100 \<le> length ([page100] ! i)"
    by (simp add: full_then_fail_def chats_of_def page100_def)
  have h4: "chats_of (full_then_fail (length (events idle) + 1) (List_chats (100 * 1))) = None"
    by (simp add: full_then_fail_def chats_of_def)
  note t = listing_failure_aborts_pagination[OF idle_not_running h1 h2 h3 h4, of cfg0]
  have l: "length page100 = 100" by (simp add: page100_def)
  show ?thesis using t idle_not_running h4 l by (simp add: upt_rec)
qed

text \<open>
  The spec has the failed fetch counted as a sweep-level error. \<^const>\<open>avitoApi\<close> catches
  every failure and returns \<^verbatim>\<open>null\<close>, and the loop leaves on \<^verbatim>\<open>!data\<close> without
  touching \<^verbatim>\<open>errors\<close>: a sweep against an unreachable remote reports no error.
\<close>

theorem listing_failure_not_counted:
  "chats_of (down (length (events idle)) (List_chats 0)) = None \<and>
   listing_offsets (sweep_events cfg0 down idle) = [0] \<and>
   errors (syncState (periodicSync cfg0 down idle)) = 0"
proof -
  have a: "chats_of (down (length (events idle)) (List_chats 0)) = None"
    by (simp add: down_def chats_of_def)
  have b: "listing_offsets (sweep_events cfg0 down idle) = [0]" by code_simp
  have c: "errors (syncState (periodicSync cfg0 down idle)) = 0" by code_simp
  show ?thesis using a b c by simp
qed

subsection \<open>C7: the file name of a conversation\<close>

text \<open>
  Claim C7, as the code has it. \<^const>\<open>safeName\<close> is idempotent. On ids that do not
  already contain \<^verbatim>\<open>%2F\<close> it can be decoded and it is injective.
\<close>

theorem encoding_idempotent_decodable:
  "safeName (safeName x) = safeName x \<and>
   (\<not> contains_escape x \<longrightarrow> decodeName (safeName x) = x) \<and>
   (\<not> contains_escape x \<and> \<not> contains_escape y \<and> x \<noteq> y \<longrightarrow> safeName x \<noteq> safeName y)"
proof -
  have inj: "safeName x \<noteq> safeName y" if "\<not> contains_escape x" "\<not> contains_escape y" "x \<noteq> y"
  proof
    assume "safeName x = safeName y"
    then have "decodeName (safeName x) = decodeName (safeName y)" by simp
    then show False using that by (simp add: decode_safeName)
  qed
  show ?thesis using safeName_idem decode_safeName inj by blast
qed

theorem encoding_idempotent_decodable_witness:
  "\<not> contains_escape ''u2i/55-abc'' \<and> \<not> contains_escape ''u2i/55-abd'' \<and> ''u2i/55-abc'' \<noteq> ''u2i/55-abd'' \<and>
   decodeName (safeName ''u2i/55-abc'') = ''u2i/55-abc'' \<and>
   safeName ''u2i/55-abc'' \<noteq> safeName ''u2i/55-abd'' \<and>
   safeName (safeName ''u2i/55-abc'') = safeName ''u2i/55-abc''"
  using encoding_idempotent_decodable[of "''u2i/55-abc''" "''u2i/55-abd''"] by simp

text \<open>
  Without that restriction the encoding collides: the percent sign is not escaped, so an
  id with a slash and the same id with \<^verbatim>\<open>%2F\<close> in its place share one file.
\<close>

theorem encoding_collision:
  "''a/b'' \<noteq> ''a%2Fb'' \<and> safeName ''a/b'' = safeName ''a%2Fb''"
  by simp

subsection \<open>C8: writing and reading a cached conversation\<close>

text \<open>
  Claim C8, as the code has it. After a non-empty batch is saved, an authorised read of the
  conversation returns the batch in the order it was saved in. The messages sorted by
  \<^verbatim>\<open>created\<close> go to the transcript only, which holds a sorted permutation of the batch.
\<close>

theorem cache_round_trip:
  assumes "ms \<noteq> []" and "checkAuth cfg header"
  shows "events (get_chat_messages cfg header chatId (saveChatMessages chatId (Some ms) s)) =
           events s @ [Http_reply 200 (Body_cached \<lparr>cached_chat_id = chatId, cached_messages = ms\<rparr>)] \<and>
         files (saveChatMessages chatId (Some ms) s) (''chat_'' @ safeName chatId @ ''.txt'') =
           Some (Txt_file chatId (sort_key created_or_0 ms)) \<and>
         sorted (map created_or_0 (sort_key created_or_0 ms)) \<and>
         mset (sort_key created_or_0 ms) = mset ms"
  using assms json_name_neq_txt_name[of "safeName chatId" "''chat_'' @ safeName chatId"]
  by (simp add: get_chat_messages_def saveChatMessages_def Let_def sendJson_def)

theorem cache_round_trip_witness:
  "[msg_of ''m2'' 20, msg_of ''m1'' 10] \<noteq> [] \<and> checkAuth cfg0 None \<and>
   events (get_chat_messages cfg0 None ''u2i/55'' (saveChatMessages ''u2i/55'' (Some [msg_of ''m2'' 20, msg_of ''m1'' 10]) idle)) =
     events idle @ [Http_reply 200 (Body_cached \<lparr>cached_chat_id = ''u2i/55'',
                                       cached_messages = [msg_of ''m2'' 20, msg_of ''m1'' 10]\<rparr>)] \<and>
   files (saveChatMessages ''u2i/55'' (Some [msg_of ''m2'' 20, msg_of ''m1'' 10]) idle) ''chat_u2i%2F55.txt'' =
     Some (Txt_file ''u2i/55'' [msg_of ''m1'' 10, msg_of ''m2'' 20])"
proof -
  have h1: "[msg_of ''m2'' 20, msg_of ''m1'' 10] \<noteq> []" by simp
  have h2: "checkAuth cfg0 None" by (simp add: checkAuth_def cfg0_def)
  show ?thesis using h1 h2 cache_round_trip[OF h1 h2, of "''u2i/55''" idle] by (simp add: created_or_0_def msg_of_def)
qed

text \<open>
  The sequence read back is not sorted by \<^verbatim>\<open>created\<close> unless it was fetched so: the
  sort is applied to a copy, after the JSON blob is written.
\<close>

theorem cached_order_not_sorted:
  "replies (events (get_chat_messages cfg0 None ''c'' (saveChatMessages ''c'' (Some [msg_of ''m2'' 20, msg_of ''m1'' 10]) idle))) =
     [(200, Body_cached \<lparr>cached_chat_id = ''c'', cached_messages = [msg_of ''m2'' 20, msg_of ''m1'' 10]\<rparr>)] \<and>
   \<not> sorted (map created_or_0 [msg_of ''m2'' 20, msg_of ''m1'' 10])"
proof -
  have a: "replies (events (get_chat_messages cfg0 None ''c'' (saveChatMessages ''c'' (Some [msg_of ''m2'' 20, msg_of ''m1'' 10]) idle))) =
     [(200, Body_cached \<lparr>cached_chat_id = ''c'', cached_messages = [msg_of ''m2'' 20, msg_of ''m1'' 10]\<rparr>)]"
    by (simp add: get_chat_messages_def checkAuth_def cfg0_def saveChatMessages_def sendJson_def idle_def Let_def)
  have b: "\<not> sorted (map created_or_0 [msg_of ''m2'' 20, msg_of ''m1'' 10])"
    by (simp add: created_or_0_def msg_of_def)
  show ?thesis using a b by simp
qed

subsection \<open>C9: the webhook acknowledges first\<close>

text \<open>
  Claim C9. The first thing the webhook handler does, for every body, is to send the reply
  200 \<^verbatim>\<open>{ok: true}\<close>, and it sends no other reply. A body that is malformed or has no
  conversation id has no further effect: the index, the webhook-seen map and the files are
  unchanged.
\<close>

theorem webhook_ack_first:
  "(\<exists>rest. events (webhook remote body s) = events s @ Http_reply 200 Body_ok # rest \<and>
           replies rest = []) \<and>
   (lacks_chat_id body \<longrightarrow>
      events (webhook remote body s) = events s @ [Http_reply 200 Body_ok] \<and>
      chatIndex (webhook remote body s) = chatIndex s \<and>
      webhookSeen (webhook remote body s) = webhookSeen s \<and>
      files (webhook remote body s) = files s)"
  by (auto simp: webhook_def sendJson_def Let_def updateChatCache_fields lacks_chat_id_def
           split: webhook_body.splits option.splits)

theorem webhook_ack_first_witness:
  "lacks_chat_id Malformed \<and>
   lacks_chat_id (Parsed (Some \<lparr>wv_chat_id = None, wv_id = Some ''m9''\<rparr>)) \<and>
   events (webhook three_chats Malformed idle) = [Http_reply 200 Body_ok] \<and>
   events (webhook three_chats (Parsed (Some \<lparr>wv_chat_id = None, wv_id = Some ''m9''\<rparr>)) idle) =
     [Http_reply 200 Body_ok] \<and>
   webhookSeen (webhook three_chats (Parsed (Some \<lparr>wv_chat_id = None, wv_id = Some ''m9''\<rparr>)) idle) =
     webhookSeen idle \<and>
   files (webhook three_chats Malformed idle) = files idle"
proof -
  have a: "lacks_chat_id Malformed" by (simp add: lacks_chat_id_def)
  have b: "lacks_chat_id (Parsed (Some \<lparr>wv_chat_id = None, wv_id = Some ''m9''\<rparr>))"
    by (simp add: lacks_chat_id_def)
  have e: "events idle = []" by (simp add: idle_def)
  show ?thesis
    using a b webhook_ack_first[of three_chats Malformed idle]
      webhook_ack_first[of three_chats "Parsed (Some \<lparr>wv_chat_id = None, wv_id = Some ''m9''\<rparr>)" idle]
    by (simp add: e)
qed

subsection \<open>C10: the webhook-seen map and staleness\<close>

text \<open>
  Claim C10. Started from two states that differ only in the webhook-seen map, a sweep
  finds the same listed entries dirty and produces the same events, hence the same refresh
  requests; it commutes with any change of that map. The webhook handler leaves the index
  as it is.
\<close>

theorem webhookSeen_not_in_staleness:
  "sweep_events cfg remote (s\<lparr>webhookSeen := w1\<rparr>) = sweep_events cfg remote (s\<lparr>webhookSeen := w2\<rparr>) \<and>
   refresh_ids (sweep_events cfg remote (s\<lparr>webhookSeen := w1\<rparr>)) =
     refresh_ids (sweep_events cfg remote (s\<lparr>webhookSeen := w2\<rparr>)) \<and>
   filter (is_dirty (chatIndex (s\<lparr>webhookSeen := w1\<rparr>))) (sweep_listing remote (s\<lparr>webhookSeen := w1\<rparr>)) =
     filter (is_dirty (chatIndex (s\<lparr>webhookSeen := w2\<rparr>))) (sweep_listing remote (s\<lparr>webhookSeen := w2\<rparr>)) \<and>
   periodicSync cfg remote (s\<lparr>webhookSeen := w1\<rparr>) = (periodicSync cfg remote s)\<lparr>webhookSeen := w1\<rparr> \<and>
   chatIndex (webhook remote body s) = chatIndex s"
proof -
  have a: "periodicSync cfg remote (s\<lparr>webhookSeen := w\<rparr>) = (periodicSync cfg remote s)\<lparr>webhookSeen := w\<rparr>"
    for w by (rule periodicSync_seen)
  have b: "sweep_events cfg remote (s\<lparr>webhookSeen := w\<rparr>) = sweep_events cfg remote s" for w
    by (simp add: sweep_events_def a)
  have l: "sweep_listing remote (s\<lparr>webhookSeen := w\<rparr>) = sweep_listing remote s" for w
    by (rule sweep_listing_events_only) simp
  have c: "chatIndex (webhook remote body s) = chatIndex s"
    by (simp add: webhook_def sendJson_def Let_def updateChatCache_fields
             split: webhook_body.splits option.splits)
  show ?thesis using a b l c by simp
qed

end
